theory Spec2Isabelle
  imports Main "HOL-Library.AList" "HOL-Library.Sublist"
begin

section \<open>Objects\<close>

text \<open>
  A JavaScript object with string keys is an association list in the order in which
  \<^verbatim>\<open>Object.entries\<close> enumerates it. A well-formed object has each key once. A key is a
  \<open>string\<close>, one \<open>char\<close> for each code unit: \<^verbatim>\<open>startsWith\<close>, \<^verbatim>\<open>slice\<close> and
  \<^verbatim>\<open>length\<close> of the source count code units. The values are of any type \<open>'v\<close>; two
  values are identical when they are equal in HOL (the difference between \<^verbatim>\<open>===\<close> and
  \<^verbatim>\<open>Object.is\<close> on NaN and signed zero is not represented).

  JavaScript enumerates keys that are array indices before the other keys; the list
  order here is insertion order only. The results below that compare objects read them
  through \<open>map_of\<close> or hold for every order of a well-formed object.
\<close>

type_synonym 'v obj = "(string \<times> 'v) list"

definition wf_obj :: "'v obj \<Rightarrow> bool" where
  "wf_obj obj = distinct (map fst obj)"

text \<open>
  \<^verbatim>\<open>{...acc, [k]: v}\<close> is \<open>AList.update k v acc\<close>: the value of an existing key is
  replaced where it stands, a new key goes to the end. \<^verbatim>\<open>{...acc, ...src}\<close> sets the
  entries of \<open>src\<close> one after the other. \<^verbatim>\<open>delete obj[k]\<close> is \<open>AList.delete k obj\<close>.
\<close>

definition spread :: "'v obj \<Rightarrow> 'v obj \<Rightarrow> 'v obj" where
  "spread acc src = foldl (\<lambda>a (k, v). AList.update k v a) acc src"

text \<open>
  The values that \<^verbatim>\<open>toNamespace\<close> and \<^verbatim>\<open>fromNamespace\<close> are applied to in the
  repository's tests: strings, numbers, functions (by name) and objects.
\<close>

datatype jsval =
    JUndefined
  | JNum int
  | JStr string
  | JFun string
  | JObj "(string \<times> jsval) list"

section \<open>The prefix codec (utils.tsx, lines 105--130)\<close>

definition getPrefixedObject :: "string \<Rightarrow> 'v obj \<Rightarrow> 'v obj" where
  "getPrefixedObject typePrefix obj =
     foldl (\<lambda>acc (key, value). AList.update (typePrefix @ ''_'' @ key) value acc) [] obj"

definition getUnprefixedObject :: "string \<Rightarrow> 'v obj \<Rightarrow> 'v obj" where
  "getUnprefixedObject typePrefix obj =
     foldl (\<lambda>acc (key, value).
              if prefix (typePrefix @ ''_'') key
              then AList.update (drop (length typePrefix + 1) key) value acc
              else acc) [] obj"

section \<open>The store API and the namespace facade (utils.tsx, lines 19--75)\<close>

text \<open>
  The first argument of \<^verbatim>\<open>setState\<close> is an object or a function of the current state.
  The second, \<^verbatim>\<open>replace\<close>, is optional: \<open>None\<close> is an absent argument. A listener is
  called with the new and the old state; what it does is the list of events it emits.

  A store API is a record of functions over the store \<open>'s\<close> that the closures of the
  source share. \<^verbatim>\<open>subscribe\<close> of the source returns the parent's unsubscribe function,
  which the facade hands on as it is; it is left out here.
\<close>

datatype 'v partial = Partial "'v obj" | Updater "'v obj \<Rightarrow> 'v obj"

type_synonym ('v, 'e) listener = "'v obj \<Rightarrow> 'v obj \<Rightarrow> 'e list"

record ('s, 'v, 'e) StoreApi =
  getInitialState :: "'s \<Rightarrow> 'v obj"
  getState :: "'s \<Rightarrow> 'v obj"
  setState :: "'v partial \<Rightarrow> bool option \<Rightarrow> 's \<Rightarrow> 's \<times> 'e list"
  subscribe :: "('v, 'e) listener \<Rightarrow> 's \<Rightarrow> 's"

type_synonym ('s, 'v, 'e) creator_args =
  "('v partial \<Rightarrow> bool option \<Rightarrow> 's \<Rightarrow> 's \<times> 'e list) \<times> ('s \<Rightarrow> 'v obj) \<times> ('s, 'v, 'e) StoreApi"

record ('s, 'v, 'e) Namespace =
  name :: string
  creator :: "('s, 'v, 'e) creator_args \<Rightarrow> 'v obj"

text \<open>
  Modelled from the spec: \<^verbatim>\<open>shallow\<close> is imported from the store library and is not
  among the repository's sources. Two objects are shallow-equal when they have the same keys with identical
  values: as many keys, and every key of the first in the second with the same value.
\<close>

definition shallow :: "'v obj \<Rightarrow> 'v obj \<Rightarrow> bool" where
  "shallow objA objB =
     (length objA = length objB \<and> list_all (\<lambda>(k, v). map_of objB k = Some v) objA)"

text \<open>The function that the facade's \<^verbatim>\<open>setState\<close> passes to the parent (lines 31--53).\<close>

definition setState_updater :: "string \<Rightarrow> 'v partial \<Rightarrow> bool option \<Rightarrow> 'v obj \<Rightarrow> 'v obj" where
  "setState_updater typePrefix st replace currentState =
     (let unprefixedState = getUnprefixedObject typePrefix currentState;
          updatedState = (case st of Updater f \<Rightarrow> f unprefixedState | Partial p \<Rightarrow> p)
      in if replace = Some True
         then (let prefixedState = getPrefixedObject typePrefix unprefixedState;
                   newState = foldl (\<lambda>acc key. AList.delete key acc) currentState
                                (map fst prefixedState)
               in spread newState (getPrefixedObject typePrefix updatedState))
         else getPrefixedObject typePrefix updatedState)"

text \<open>The listener that the facade's \<^verbatim>\<open>subscribe\<close> passes to the parent (lines 56--70).\<close>

definition subscribe_callback :: "string \<Rightarrow> ('v, 'e) listener \<Rightarrow> ('v, 'e) listener" where
  "subscribe_callback typePrefix listener newState oldState =
     (let newUnprefixedState = getUnprefixedObject typePrefix newState;
          oldUnprefixedState = getUnprefixedObject typePrefix oldState
      in if shallow newUnprefixedState oldUnprefixedState then []
         else listener (getUnprefixedObject typePrefix newState)
                       (getUnprefixedObject typePrefix oldState))"

text \<open>
  \<^verbatim>\<open>withFactories\<close> adds the method \<^verbatim>\<open>getNamespaceHook\<close> to the API object and returns
  the same object. A method is a function of the record here
  (\<open>withFactories_getNamespaceHook\<close> below), so the record itself is unchanged.
\<close>

definition withFactories :: "('s, 'v, 'e) StoreApi \<Rightarrow> ('s, 'v, 'e) StoreApi" where
  "withFactories api = api"

definition getNamespacedApi ::
  "('s, 'v, 'e) Namespace \<Rightarrow> ('s, 'v, 'e) StoreApi \<Rightarrow> ('s, 'v, 'e) StoreApi" where
  "getNamespacedApi namespace api =
     (let namespacedApi =
        \<lparr> getInitialState = (\<lambda>s. getUnprefixedObject (name namespace) (getInitialState api s)),
          getState = (\<lambda>s. getUnprefixedObject (name namespace) (getState api s)),
          setState = (\<lambda>st replace.
             setState api (Updater (setState_updater (name namespace) st replace)) None),
          subscribe = (\<lambda>listener.
             subscribe api (subscribe_callback (name namespace) listener)) \<rparr>
      in withFactories namespacedApi)"

section \<open>The parent store\<close>

text \<open>
  Modelled from the spec: the store primitive that owns the parent state is the store
  library's and is not among the repository's sources. Its contract:
  \<^verbatim>\<open>setState(partial, replace)\<close> resolves
  \<open>partial\<close> (an object, or a function of the current state), puts the result in place
  of the state when \<open>replace\<close> is true and merges it shallowly into the state when
  \<open>replace\<close> is false or absent, then calls every listener, in the order of
  registration, with the new and the previous state. The objects the facade passes are
  new ones, so the primitive's test for an unchanged object reference never holds and is
  left out.
\<close>

record ('v, 'e) Store =
  st_state :: "'v obj"
  st_initialState :: "'v obj"
  st_listeners :: "('v, 'e) listener list"

definition store_setState ::
  "'v partial \<Rightarrow> bool option \<Rightarrow> ('v, 'e) Store \<Rightarrow> ('v, 'e) Store \<times> 'e list" where
  "store_setState partial replace s =
     (let previousState = st_state s;
          nextState = (case partial of Updater f \<Rightarrow> f previousState | Partial p \<Rightarrow> p);
          newState = (if replace = Some True then nextState else spread previousState nextState)
      in (s\<lparr>st_state := newState\<rparr>,
          concat (map (\<lambda>listener. listener newState previousState) (st_listeners s))))"

definition store_subscribe :: "('v, 'e) listener \<Rightarrow> ('v, 'e) Store \<Rightarrow> ('v, 'e) Store" where
  "store_subscribe listener s = s\<lparr>st_listeners := st_listeners s @ [listener]\<rparr>"

definition store_api :: "(('v, 'e) Store, 'v, 'e) StoreApi" where
  "store_api = \<lparr> getInitialState = st_initialState, getState = st_state,
                 setState = store_setState, subscribe = store_subscribe \<rparr>"

section \<open>The combinator (utils.tsx, lines 91--103, 138--170 and 293--328)\<close>

definition transformStateCreatorArgs ::
  "('s, 'v, 'e) Namespace \<Rightarrow> ('s, 'v, 'e) creator_args \<Rightarrow> ('s, 'v, 'e) creator_args" where
  "transformStateCreatorArgs namespace args =
     (case args of (_, _, originalApi) \<Rightarrow>
        (let newApi = getNamespacedApi namespace originalApi
         in (setState newApi, getState newApi, newApi)))"

definition spreadNamespaces :: "'n list \<Rightarrow> ('n \<Rightarrow> 'v obj) \<Rightarrow> 'v obj" where
  "spreadNamespaces namespaces callback =
     foldl (\<lambda>acc namespace. spread acc (callback namespace)) [] namespaces"

definition transformCallback ::
  "('s, 'v, 'e) creator_args \<Rightarrow> ('s, 'v, 'e) Namespace \<Rightarrow> 'v obj" where
  "transformCallback args namespace =
     (let newArgs = transformStateCreatorArgs namespace args
      in getPrefixedObject (name namespace) (creator namespace newArgs))"

definition spreadTransformedNamespaces ::
  "('s, 'v, 'e) Namespace list \<Rightarrow> ('s, 'v, 'e) creator_args \<Rightarrow> 'v obj" where
  "spreadTransformedNamespaces namespaces args =
     spreadNamespaces namespaces (transformCallback args)"

text \<open>
  The root creator is optional. \<^verbatim>\<open>creator?.(set, get, api)\<close> is \<^verbatim>\<open>undefined\<close> when
  there is none, and spreading \<^verbatim>\<open>undefined\<close> into an object literal adds no key.
\<close>

definition namespaced ::
  "('s, 'v, 'e) Namespace list \<Rightarrow> (('s, 'v, 'e) creator_args \<Rightarrow> 'v obj) option
     \<Rightarrow> ('s, 'v, 'e) creator_args \<Rightarrow> 'v obj" where
  "namespaced namespaces rootCreator args =
     (case args of (set', get', api) \<Rightarrow>
        (let apiWithNamespace = withFactories api
         in spread (spreadTransformedNamespaces namespaces (set', get', apiWithNamespace))
              (case rootCreator of
                 None \<Rightarrow> []
               | Some c \<Rightarrow> c (set', get', apiWithNamespace))))"

section \<open>Accessors (utils.tsx, lines 77--89 and 172--183)\<close>

text \<open>
  Modelled from the spec: the hook \<^verbatim>\<open>useStore\<close> belongs to the store library and is not
  among the repository's sources. It reads a value selected from the current state of
  the API it is bound to.
\<close>

definition useStore :: "('s, 'v, 'e) StoreApi \<Rightarrow> ('v obj \<Rightarrow> 'r) \<Rightarrow> 's \<Rightarrow> 'r" where
  "useStore api selector s = selector (getState api s)"

text \<open>An accessor is the hook function with the facade's API assigned to it.\<close>

record ('s, 'v, 'e, 'r) UseBoundNamespace =
  hook :: "('v obj \<Rightarrow> 'r) \<Rightarrow> 's \<Rightarrow> 'r"
  hook_api :: "('s, 'v, 'e) StoreApi"

definition getNamespaceHook ::
  "('s, 'v, 'e) StoreApi \<Rightarrow> ('s, 'v, 'e) Namespace \<Rightarrow> ('s, 'v, 'e, 'r) UseBoundNamespace" where
  "getNamespaceHook api namespace =
     (let namespaceApi = getNamespacedApi namespace api;
          hook = (\<lambda>selector. useStore namespaceApi selector)
      in \<lparr> hook = hook, hook_api = namespaceApi \<rparr>)"

text \<open>
  The method \<^verbatim>\<open>getNamespaceHook(...namespaces)\<close> that \<^verbatim>\<open>withFactories\<close> adds returns
  one accessor when it has one argument and a JavaScript array otherwise.
\<close>

datatype 'a hooks = OneHook 'a | HookArray "'a list"

definition withFactories_getNamespaceHook ::
  "('s, 'v, 'e) StoreApi \<Rightarrow> ('s, 'v, 'e) Namespace list
     \<Rightarrow> ('s, 'v, 'e, 'r) UseBoundNamespace hooks" where
  "withFactories_getNamespaceHook api namespaces =
     (if length namespaces = 1 then OneHook (getNamespaceHook api (namespaces ! 0))
      else HookArray (map (\<lambda>namespace. getNamespaceHook api namespace) namespaces))"

text \<open>
  Reading a property of a JavaScript array by a string key gives an element only when the
  key is the decimal form of an index below the length, written without a sign and
  without leading zeros.
\<close>

definition digit_of :: "char \<Rightarrow> nat option" where
  "digit_of c = (let n = (of_char c :: nat) in if 48 \<le> n \<and> n \<le> 57 then Some (n - 48) else None)"

fun index_of_digits :: "nat \<Rightarrow> string \<Rightarrow> nat option" where
  "index_of_digits acc [] = Some acc"
| "index_of_digits acc (c # cs) =
     (case digit_of c of None \<Rightarrow> None | Some d \<Rightarrow> index_of_digits (10 * acc + d) cs)"

definition array_index :: "string \<Rightarrow> nat option" where
  "array_index key =
     (if key = [] \<or> (hd key = CHR ''0'' \<and> key \<noteq> ''0'') then None
      else index_of_digits 0 key)"

definition array_element :: "'a list \<Rightarrow> string \<Rightarrow> 'a option" where
  "array_element xs key =
     (case array_index key of
        None \<Rightarrow> None
      | Some i \<Rightarrow> if i < length xs then Some (xs ! i) else None)"

definition hooks_by_index :: "'a hooks \<Rightarrow> nat \<Rightarrow> 'a option" where
  "hooks_by_index h i =
     (case h of OneHook _ \<Rightarrow> None
      | HookArray xs \<Rightarrow> if i < length xs then Some (xs ! i) else None)"

definition hooks_by_name :: "'a hooks \<Rightarrow> string \<Rightarrow> 'a option" where
  "hooks_by_name h key =
     (case h of OneHook _ \<Rightarrow> None | HookArray xs \<Rightarrow> array_element xs key)"

section \<open>The standalone transforms (utils.tsx, lines 191--209)\<close>

text \<open>
  Both take the namespace first and the state second, and read only the property
  \<^verbatim>\<open>name\<close> of the namespace (its parameter type is \<^verbatim>\<open>Pick<Namespace, 'name'>\<close>). The
  arguments are objects of \<open>jsval\<close>. The result is \<open>None\<close> when the namespace has no
  property \<^verbatim>\<open>name\<close> that is a string, which the parameter type excludes.
\<close>

definition toNamespace :: "jsval obj \<Rightarrow> jsval obj \<Rightarrow> jsval obj option" where
  "toNamespace namespace st =
     (case map_of namespace ''name'' of
        Some (JStr typePrefix) \<Rightarrow> Some (getUnprefixedObject typePrefix st)
      | _ \<Rightarrow> None)"

definition fromNamespace :: "jsval obj \<Rightarrow> jsval obj \<Rightarrow> jsval obj option" where
  "fromNamespace namespace st =
     (case map_of namespace ''name'' of
        Some (JStr typePrefix) \<Rightarrow> Some (getPrefixedObject typePrefix st)
      | _ \<Rightarrow> None)"

section \<open>Creation time: an undefined parent state and calls that throw\<close>

















section \<open>Properties of the codec\<close>

lemma update_fresh: "k \<notin> fst ` set al \<Longrightarrow> AList.update k v al = al @ [(k, v)]"
  by (induction al) auto

lemma prefixed_fold:
  "distinct (map fst obj) \<Longrightarrow>
   fst ` set acc \<inter> (\<lambda>k. n @ ''_'' @ k) ` fst ` set obj = {} \<Longrightarrow>
   foldl (\<lambda>acc (key, value). AList.update (n @ ''_'' @ key) value acc) acc obj
     = acc @ map (\<lambda>(k, v). (n @ ''_'' @ k, v)) obj"
proof (induction obj arbitrary: acc)
  case Nil
  then show ?case by simp
next
  case (Cons p obj)
  obtain k v where p: "p = (k, v)" by (cases p)
  from Cons.prems have fresh: "n @ ''_'' @ k \<notin> fst ` set acc" by (auto simp: p)
  have d: "distinct (map fst obj)" and knot: "k \<notin> fst ` set obj"
    using Cons.prems(1) by (auto simp: p)
  have disj: "fst ` set (acc @ [(n @ ''_'' @ k, v)]) \<inter> (\<lambda>k. n @ ''_'' @ k) ` fst ` set obj = {}"
    using Cons.prems(2) knot by (auto simp: p)
  show ?case
    using Cons.IH[OF d disj] update_fresh[OF fresh, of v] by (simp add: p)
qed

lemma getPrefixedObject_map:
  "wf_obj obj \<Longrightarrow> getPrefixedObject n obj = map (\<lambda>(k, v). (n @ ''_'' @ k, v)) obj"
  using prefixed_fold[of obj "[]" n] by (simp add: getPrefixedObject_def wf_obj_def)

lemma strip_prefixed: "prefix (n @ ''_'') key \<Longrightarrow> n @ ''_'' @ drop (length n + 1) key = key"
  by (auto simp: prefix_def)

lemma unprefixed_fold:
  "distinct (map fst obj) \<Longrightarrow>
   fst ` set acc \<inter> {k. n @ ''_'' @ k \<in> fst ` set obj} = {} \<Longrightarrow>
   foldl (\<lambda>acc (key, value).
              if prefix (n @ ''_'') key
              then AList.update (drop (length n + 1) key) value acc
              else acc) acc obj
     = acc @ map (\<lambda>(k, v). (drop (length n + 1) k, v))
                 (filter (\<lambda>(k, v). prefix (n @ ''_'') k) obj)"
proof (induction obj arbitrary: acc)
  case Nil
  then show ?case by simp
next
  case (Cons p obj)
  obtain k v where p: "p = (k, v)" by (cases p)
  have d: "distinct (map fst obj)" and knot: "k \<notin> fst ` set obj"
    using Cons.prems(1) by (auto simp: p)
  show ?case
  proof (cases "prefix (n @ ''_'') k")
    case False
    have disj: "fst ` set acc \<inter> {k. n @ ''_'' @ k \<in> fst ` set obj} = {}"
      using Cons.prems(2) by (auto simp: p)
    show ?thesis using Cons.IH[OF d disj] False by (simp add: p)
  next
    case True
    let ?s = "drop (length n + 1) k"
    have k: "n @ ''_'' @ ?s = k" using True by (rule strip_prefixed)
    have fresh: "?s \<notin> fst ` set acc"
      using Cons.prems(2) k by (auto simp: p)
    have disj: "fst ` set (acc @ [(?s, v)]) \<inter> {k. n @ ''_'' @ k \<in> fst ` set obj} = {}"
      using Cons.prems(2) knot k by (auto simp: p)
    show ?thesis
      using Cons.IH[OF d disj] True update_fresh[OF fresh, of v] by (simp add: p)
  qed
qed

lemma getUnprefixedObject_filter:
  "wf_obj obj \<Longrightarrow>
   getUnprefixedObject n obj
     = map (\<lambda>(k, v). (drop (length n + 1) k, v)) (filter (\<lambda>(k, v). prefix (n @ ''_'') k) obj)"
  using unprefixed_fold[of obj "[]" n] by (simp add: getUnprefixedObject_def wf_obj_def)

lemma map_of_strip_filter:
  "map_of (map (\<lambda>(k, v). (drop (length n + 1) k, v)) (filter (\<lambda>(k, v). prefix (n @ ''_'') k) obj)) k
     = map_of obj (n @ ''_'' @ k)"
proof (induction obj)
  case Nil
  then show ?case by simp
next
  case (Cons p obj)
  obtain k' v where p: "p = (k', v)" by (cases p)
  show ?case
  proof (cases "prefix (n @ ''_'') k'")
    case True
    then have "n @ ''_'' @ drop (length n + 1) k' = k'" by (rule strip_prefixed)
    then have "(drop (length n + 1) k' = k) = (k' = n @ ''_'' @ k)" by auto
    then show ?thesis using Cons.IH True by (auto simp: p)
  next
    case False
    then have "k' \<noteq> n @ ''_'' @ k" by (auto simp: prefix_def)
    then show ?thesis using Cons.IH False by (simp add: p)
  qed
qed

lemma wf_map_prefixed: "wf_obj obj \<Longrightarrow> wf_obj (map (\<lambda>(k, v). (n @ ''_'' @ k, v)) obj)"
  by (simp add: wf_obj_def distinct_map inj_on_def comp_def case_prod_unfold)

lemma wf_filter: "wf_obj obj \<Longrightarrow> wf_obj (filter P obj)"
  by (simp add: wf_obj_def distinct_map_filter)

lemma wf_map_stripped:
  assumes "wf_obj obj"
  shows "wf_obj (map (\<lambda>(k, v). (drop (length n + 1) k, v)) (filter (\<lambda>(k, v). prefix (n @ ''_'') k) obj))"
proof -
  let ?f = "filter (\<lambda>(k, v). prefix (n @ ''_'') k) obj"
  have d: "distinct (map fst ?f)" using wf_filter[OF assms] by (simp add: wf_obj_def)
  have inj: "inj_on (drop (length n + 1)) (set (map fst ?f))"
  proof (rule inj_onI)
    fix x y assume x: "x \<in> set (map fst ?f)" and y: "y \<in> set (map fst ?f)"
      and e: "drop (length n + 1) x = drop (length n + 1) y"
    from x have "prefix (n @ ''_'') x" by auto
    then have 1: "n @ ''_'' @ drop (length n + 1) x = x" by (rule strip_prefixed)
    from y have "prefix (n @ ''_'') y" by auto
    then have 2: "n @ ''_'' @ drop (length n + 1) y = y" by (rule strip_prefixed)
    from 1 2 e show "x = y" by metis
  qed
  have "map fst (map (\<lambda>(k, v). (drop (length n + 1) k, v)) ?f) = map (drop (length n + 1)) (map fst ?f)"
    by (simp add: comp_def case_prod_unfold)
  then show ?thesis using d inj by (simp only: wf_obj_def distinct_map)
qed

lemma filter_map_prefixed:
  "filter (\<lambda>(k, v). prefix (n @ ''_'') k) (map (\<lambda>(k, v). (n @ ''_'' @ k, v)) obj)
     = map (\<lambda>(k, v). (n @ ''_'' @ k, v)) obj"
  by (induction obj) (auto simp: prefix_def)

lemma roundtrip_aux:
  "map (\<lambda>(k, v). (drop (length n + 1) k, v)) (map (\<lambda>(k, v). (n @ ''_'' @ k, v)) obj) = obj"
  by (induction obj) auto

lemma restrict_aux:
  "map (\<lambda>(k, v). (n @ ''_'' @ k, v))
     (map (\<lambda>(k, v). (drop (length n + 1) k, v)) (filter (\<lambda>(k, v). prefix (n @ ''_'') k) obj))
   = filter (\<lambda>(k, v). prefix (n @ ''_'') k) obj"
proof (induction obj)
  case Nil
  then show ?case by simp
next
  case (Cons p obj)
  obtain k v where p: "p = (k, v)" by (cases p)
  show ?case using Cons.IH strip_prefixed[of n k] by (auto simp: p)
qed

text \<open>
  Claim C4. For every namespace name \<open>n\<close> and every well-formed flat object \<open>obj\<close>,
  removing the prefix \<open>n\<close> from the object prefixed with \<open>n\<close> gives \<open>obj\<close> back, with
  its keys in the same order. No condition on the keys is needed: the law holds in
  particular for the objects whose keys have no separator collision with \<open>n\<close>.
\<close>

theorem codec_round_trip:
  "wf_obj obj \<Longrightarrow> getUnprefixedObject n (getPrefixedObject n obj) = obj"
proof -
  assume wf: "wf_obj obj"
  have "getUnprefixedObject n (getPrefixedObject n obj)
        = getUnprefixedObject n (map (\<lambda>(k, v). (n @ ''_'' @ k, v)) obj)"
    by (simp only: getPrefixedObject_map[OF wf])
  also have "\<dots> = map (\<lambda>(k, v). (drop (length n + 1) k, v))
                    (filter (\<lambda>(k, v). prefix (n @ ''_'') k) (map (\<lambda>(k, v). (n @ ''_'' @ k, v)) obj))"
    by (rule getUnprefixedObject_filter[OF wf_map_prefixed[OF wf]])
  also have "\<dots> = obj"
    by (simp only: filter_map_prefixed roundtrip_aux)
  finally show ?thesis .
qed

theorem codec_round_trip_witness:
  "wf_obj [(''name'', ''Alice''), (''user_name'', ''Bob'')] \<and>
   getUnprefixedObject ''user'' (getPrefixedObject ''user'' [(''name'', ''Alice''), (''user_name'', ''Bob'')])
     = [(''name'', ''Alice''), (''user_name'', ''Bob'')]"
  using codec_round_trip[of "[(''name'', ''Alice''), (''user_name'', ''Bob'')]" "''user''"]
  by (simp add: wf_obj_def)

text \<open>
  Claim C5. Removing the prefix \<open>n\<close> from a well-formed object keeps exactly the entries
  whose key starts with \<open>n\<close> followed by the separator, strips that token from the key
  and drops every other entry: key \<open>k\<close> of the result has the value of key \<open>n_k\<close> of the
  object. In particular \<^verbatim>\<open>unprefix("user", {user_name: "A", username: "B"})\<close> is
  \<^verbatim>\<open>{name: "A"}\<close>.
\<close>

theorem unprefix_boundary:
  "(wf_obj obj \<longrightarrow>
      getUnprefixedObject n obj
        = map (\<lambda>(k, v). (drop (length n + 1) k, v)) (filter (\<lambda>(k, v). prefix (n @ ''_'') k) obj)
      \<and> (\<forall>k. map_of (getUnprefixedObject n obj) k = map_of obj (n @ ''_'' @ k)))
   \<and> getUnprefixedObject ''user'' [(''user_name'', ''A''), (''username'', ''B'')] = [(''name'', ''A'')]"
proof -
  have ex: "getUnprefixedObject ''user'' [(''user_name'', ''A''), (''username'', ''B'')] = [(''name'', ''A'')]"
    by (simp add: getUnprefixedObject_def)
  have gen: "\<forall>k. map_of (getUnprefixedObject n obj) k = map_of obj (n @ ''_'' @ k)" if "wf_obj obj"
    by (simp only: getUnprefixedObject_filter[OF that] map_of_strip_filter) simp
  from ex gen getUnprefixedObject_filter[of obj n] show ?thesis by blast
qed

theorem unprefix_boundary_witness:
  "wf_obj [(''user_name'', (1::nat)), (''username'', 2), (''age'', 3), (''user_'', 4)] \<and>
   getUnprefixedObject ''user'' [(''user_name'', (1::nat)), (''username'', 2), (''age'', 3), (''user_'', 4)]
     = [(''name'', 1), ('''', 4)] \<and>
   map_of (getUnprefixedObject ''user'' [(''user_name'', (1::nat)), (''username'', 2), (''age'', 3), (''user_'', 4)]) ''name''
     = Some 1"
  using unprefix_boundary[of "[(''user_name'', (1::nat)), (''username'', 2), (''age'', 3), (''user_'', 4)]" "''user''"]
  by (simp add: wf_obj_def)

text \<open>
  Claim C9, as stated, fails in its last clause: removing the prefix twice in a row is not
  removing it from the restriction. For \<^verbatim>\<open>{a_x: 1}\<close> and the name \<open>a\<close> the first
  removal gives \<^verbatim>\<open>{x: 1}\<close> and the second gives the empty object, while the restriction
  is \<^verbatim>\<open>{a_x: 1}\<close> and its unprefixed view is \<^verbatim>\<open>{x: 1}\<close>.
\<close>

theorem unprefix_twice_counterexample:
  "getUnprefixedObject ''a'' (getUnprefixedObject ''a'' [(''a_x'', 1::int)]) = []
   \<and> getUnprefixedObject ''a'' (filter (\<lambda>(k, v). prefix (''a'' @ ''_'') k) [(''a_x'', 1::int)])
       = [(''x'', 1)]
   \<and> getUnprefixedObject ''a'' (getUnprefixedObject ''a'' [(''a_x'', 1::int)])
       \<noteq> getUnprefixedObject ''a'' (filter (\<lambda>(k, v). prefix (''a'' @ ''_'') k) [(''a_x'', 1::int)])"
  by (simp add: getUnprefixedObject_def)

text \<open>
  Claim C9, amended. For every namespace name \<open>n\<close> and every well-formed flat object
  \<open>s\<close>, prefixing the unprefixed view of \<open>s\<close> gives the restriction of \<open>s\<close> to the keys
  that start with \<open>n\<close> and the separator, with the same values. Consequently removing
  the prefix from that result, \<^verbatim>\<open>unprefix(n, prefix(n, unprefix(n, s)))\<close>, gives the
  unprefixed view of the restriction, which is the unprefixed view of \<open>s\<close>.
\<close>

theorem prefix_unprefix_restricts:
  "wf_obj s \<Longrightarrow>
     getPrefixedObject n (getUnprefixedObject n s) = filter (\<lambda>(k, v). prefix (n @ ''_'') k) s
     \<and> getUnprefixedObject n (getPrefixedObject n (getUnprefixedObject n s))
         = getUnprefixedObject n (filter (\<lambda>(k, v). prefix (n @ ''_'') k) s)
     \<and> getUnprefixedObject n (filter (\<lambda>(k, v). prefix (n @ ''_'') k) s) = getUnprefixedObject n s"
proof -
  assume wf: "wf_obj s"
  let ?r = "filter (\<lambda>(k, v). prefix (n @ ''_'') k) s"
  let ?u = "map (\<lambda>(k, v). (drop (length n + 1) k, v)) ?r"
  have u: "getUnprefixedObject n s = ?u" by (rule getUnprefixedObject_filter[OF wf])
  have "getPrefixedObject n ?u = map (\<lambda>(k, v). (n @ ''_'' @ k, v)) ?u"
    by (rule getPrefixedObject_map[OF wf_map_stripped[OF wf]])
  then have 1: "getPrefixedObject n (getUnprefixedObject n s) = ?r"
    by (simp only: u restrict_aux)
  have "getUnprefixedObject n ?r = map (\<lambda>(k, v). (drop (length n + 1) k, v)) (filter (\<lambda>(k, v). prefix (n @ ''_'') k) ?r)"
    by (rule getUnprefixedObject_filter[OF wf_filter[OF wf]])
  then have 3: "getUnprefixedObject n ?r = getUnprefixedObject n s"
    by (simp add: u)
  from 1 3 show ?thesis by simp
qed

theorem prefix_unprefix_restricts_witness:
  "wf_obj [(''a_x'', (1::nat)), (''b_x'', 2), (''a_y'', 3), (''ax'', 4)] \<and>
   getPrefixedObject ''a'' (getUnprefixedObject ''a'' [(''a_x'', (1::nat)), (''b_x'', 2), (''a_y'', 3), (''ax'', 4)])
     = [(''a_x'', 1), (''a_y'', 3)]"
  using prefix_unprefix_restricts[of "[(''a_x'', (1::nat)), (''b_x'', 2), (''a_y'', 3), (''ax'', 4)]" "''a''"]
  by (simp add: wf_obj_def)

section \<open>Properties of spreading and of shallow equality\<close>

lemma map_of_spread: "map_of (spread a b) = map_of a ++ map_of (rev b)"
proof (induction b arbitrary: a)
  case Nil
  then show ?case by (simp add: spread_def)
next
  case (Cons p b)
  obtain k v where p: "p = (k, v)" by (cases p)
  have "map_of (spread (AList.update k v a) b) = map_of (AList.update k v a) ++ map_of (rev b)"
    by (rule Cons.IH)
  then show ?case by (simp add: p spread_def update_conv')
qed

lemma map_of_spread_other:
  "k \<notin> fst ` set b \<Longrightarrow> map_of (spread a b) k = map_of a k"
proof -
  assume "k \<notin> fst ` set b"
  then have "map_of (rev b) k = None" by (simp add: map_of_eq_None_iff)
  then show ?thesis by (simp add: map_of_spread map_add_def)
qed

lemma map_of_rev_distinct: "distinct (map fst b) \<Longrightarrow> map_of (rev b) = map_of b"
proof -
  assume d: "distinct (map fst b)"
  then have "distinct (map fst (rev b))" by (simp add: rev_map[symmetric])
  moreover have "set (rev b) = set b" by simp
  ultimately show ?thesis using d by (simp only: map_of_inject_set)
qed

lemma map_of_spread_wf: "wf_obj b \<Longrightarrow> map_of (spread a b) = map_of a ++ map_of b"
  by (simp add: map_of_spread wf_obj_def map_of_rev_distinct)

lemma keys_prefixed_fold:
  "fst ` set (foldl (\<lambda>acc (key, value). AList.update (n @ ''_'' @ key) value acc) acc obj)
     = fst ` set acc \<union> (\<lambda>k. n @ ''_'' @ k) ` fst ` set obj"
proof (induction obj arbitrary: acc)
  case Nil
  then show ?case by simp
next
  case (Cons p obj)
  obtain k v where p: "p = (k, v)" by (cases p)
  show ?case using Cons.IH[of "AList.update (n @ ''_'' @ k) v acc"]
    by (simp add: p dom_update)
qed

lemma keys_getPrefixedObject:
  "fst ` set (getPrefixedObject n obj) = (\<lambda>k. n @ ''_'' @ k) ` fst ` set obj"
  using keys_prefixed_fold[of n "[]" obj] by (simp add: getPrefixedObject_def)

lemma wf_prefixed_fold:
  "distinct (map fst acc) \<Longrightarrow>
   distinct (map fst (foldl (\<lambda>acc (key, value). AList.update (n @ ''_'' @ key) value acc) acc obj))"
proof (induction obj arbitrary: acc)
  case Nil
  then show ?case by simp
next
  case (Cons p obj)
  obtain k v where p: "p = (k, v)" by (cases p)
  show ?case using Cons.IH[OF distinct_update[OF Cons.prems, of "n @ ''_'' @ k" v]]
    by (simp add: p)
qed

lemma wf_getPrefixedObject: "wf_obj (getPrefixedObject n obj)"
  using wf_prefixed_fold[of "[]" n obj] by (simp add: getPrefixedObject_def wf_obj_def)

lemma wf_unprefixed_fold:
  "distinct (map fst acc) \<Longrightarrow>
   distinct (map fst (foldl (\<lambda>acc (key, value).
              if prefix (n @ ''_'') key
              then AList.update (drop (length n + 1) key) value acc
              else acc) acc obj))"
proof (induction obj arbitrary: acc)
  case Nil
  then show ?case by simp
next
  case (Cons p obj)
  obtain k v where p: "p = (k, v)" by (cases p)
  show ?case
    using Cons.IH[OF distinct_update[OF Cons.prems, of "drop (length n + 1) k" v]]
      Cons.IH[OF Cons.prems]
    by (simp add: p)
qed

lemma wf_getUnprefixedObject: "wf_obj (getUnprefixedObject n obj)"
  using wf_unprefixed_fold[of "[]" n obj] by (simp add: getUnprefixedObject_def wf_obj_def)

lemma shallow_iff_map_of:
  assumes a: "wf_obj a" and b: "wf_obj b"
  shows "shallow a b \<longleftrightarrow> map_of a = map_of b"
proof
  have da: "distinct (map fst a)" and db: "distinct (map fst b)"
    using a b by (simp_all add: wf_obj_def)
  assume s: "shallow a b"
  then have len: "length a = length b" and sub: "set a \<subseteq> set b"
    using db by (auto simp: shallow_def list_all_iff)
  have "distinct a" "distinct b" using da db by (simp_all add: distinct_map)
  then have "card (set a) = card (set b)" using len by (simp add: distinct_card)
  then have "set a = set b" using sub by (simp add: card_subset_eq)
  then show "map_of a = map_of b" using da db by (simp only: map_of_inject_set)
next
  have da: "distinct (map fst a)" and db: "distinct (map fst b)"
    using a b by (simp_all add: wf_obj_def)
  assume e: "map_of a = map_of b"
  then have st: "set a = set b" using da db by (simp only: map_of_inject_set)
  have "distinct a" "distinct b" using da db by (simp_all add: distinct_map)
  then have "length a = length b" using st by (metis distinct_card)
  then show "shallow a b" using st db by (auto simp: shallow_def list_all_iff)
qed


section \<open>Writing through the facade\<close>

lemma facade_setState_forward:
  "setState (getNamespacedApi ns api) p replace
     = setState api (Updater (setState_updater (name ns) p replace)) None"
  by (simp add: getNamespacedApi_def withFactories_def)

lemma facade_subscribe_forward:
  "subscribe (getNamespacedApi ns api) listener
     = subscribe api (subscribe_callback (name ns) listener)"
  by (simp add: getNamespacedApi_def withFactories_def)

lemma store_setState_merge:
  "st_state (fst (store_setState (Updater f) None s)) = spread (st_state s) (f (st_state s))"
  by (simp add: store_setState_def Let_def)

lemma updater_merge:
  "replace \<noteq> Some True \<Longrightarrow>
   setState_updater n p replace cur
     = getPrefixedObject n (case p of Updater f \<Rightarrow> f (getUnprefixedObject n cur) | Partial q \<Rightarrow> q)"
  by (simp add: setState_updater_def Let_def)

lemma updater_keys_replace_False:
  "replace \<noteq> Some True \<Longrightarrow> k \<in> fst ` set (setState_updater n p replace cur) \<Longrightarrow> prefix (n @ ''_'') k"
  by (auto simp: updater_merge keys_getPrefixedObject)

lemma map_of_foldl_delete:
  "map_of (foldl (\<lambda>acc key. AList.delete key acc) al ks) = map_of al |` (- set ks)"
proof (induction ks arbitrary: al)
  case Nil
  then show ?case by simp
next
  case (Cons k ks)
  have "map_of (foldl (\<lambda>acc key. AList.delete key acc) (AList.delete k al) ks)
      = map_of (AList.delete k al) |` (- set ks)"
    by (rule Cons.IH)
  then show ?case by (auto simp: delete_conv' restrict_map_def fun_eq_iff)
qed

lemma wf_foldl_delete:
  "wf_obj al \<Longrightarrow> wf_obj (foldl (\<lambda>acc key. AList.delete key acc) al ks)"
proof (induction ks arbitrary: al)
  case Nil
  then show ?case by simp
next
  case (Cons k ks)
  have "wf_obj (AList.delete k al)" using Cons.prems by (simp add: wf_obj_def distinct_delete)
  then show ?case using Cons.IH by simp
qed

lemma wf_spread: "wf_obj a \<Longrightarrow> wf_obj (spread a b)"
proof (induction b arbitrary: a)
  case Nil
  then show ?case by (simp add: spread_def)
next
  case (Cons p b)
  obtain k v where p: "p = (k, v)" by (cases p)
  have "wf_obj (AList.update k v a)" using Cons.prems by (simp add: wf_obj_def distinct_update)
  then have "wf_obj (spread (AList.update k v a) b)" by (rule Cons.IH)
  then show ?case by (simp add: p spread_def)
qed

lemma facade_replace_merges:
  assumes wf: "wf_obj (st_state s)"
  shows "map_of (st_state (fst (setState (getNamespacedApi ns store_api) p (Some True) s)))
       = map_of (st_state s)
         ++ map_of (getPrefixedObject (name ns)
              (case p of Updater f \<Rightarrow> f (getUnprefixedObject (name ns) (st_state s)) | Partial q \<Rightarrow> q))"
proof -
  let ?cur = "st_state s"
  let ?upd = "case p of Updater f \<Rightarrow> f (getUnprefixedObject (name ns) ?cur) | Partial q \<Rightarrow> q"
  let ?P = "getPrefixedObject (name ns) ?upd"
  let ?ks = "map fst (getPrefixedObject (name ns) (getUnprefixedObject (name ns) ?cur))"
  let ?new = "foldl (\<lambda>acc key. AList.delete key acc) ?cur ?ks"
  have u: "setState_updater (name ns) p (Some True) ?cur = spread ?new ?P"
    by (simp add: setState_updater_def Let_def)
  have wfx: "wf_obj (spread ?new ?P)"
    by (rule wf_spread[OF wf_foldl_delete[OF wf]])
  have "map_of (spread ?cur (spread ?new ?P)) = map_of ?cur ++ (map_of ?new ++ map_of ?P)"
    by (simp only: map_of_spread_wf[OF wfx] map_of_spread_wf[OF wf_getPrefixedObject])
  also have "\<dots> = map_of ?cur ++ map_of ?P"
    by (auto simp: map_of_foldl_delete map_add_def restrict_map_def fun_eq_iff split: option.splits)
  finally show ?thesis
    by (simp add: facade_setState_forward store_api_def store_setState_merge u)
qed

text \<open>
  Claim C1. A replacing write through the facade, \<^verbatim>\<open>setState(update, true)\<close>, should
  leave in the parent state, of the keys of this namespace, exactly the prefixed keys of
  the update, and should reach the parent as a replacing call. The code passes the parent
  one argument only, the updater function, so the call it forwards has no \<^verbatim>\<open>replace\<close>
  (\<open>None\<close>) whatever the facade was given. With \<^verbatim>\<open>{a_x: 1, a_y: 2}\<close> in the parent
  and \<^verbatim>\<open>setState({x: 9}, true)\<close> on the facade of \<open>a\<close>, the updater returns
  \<^verbatim>\<open>{a_x: 9}\<close>, the parent merges it, and the state after the call is
  \<^verbatim>\<open>{a_x: 9, a_y: 2}\<close>: the stale key \<open>a_y\<close> stays. For every well-formed parent
  state the state after a replacing write is, as a map, the state before with the
  prefixed update merged on top, as after a write without \<^verbatim>\<open>replace\<close>.
\<close>

theorem facade_replace_keeps_stale_key:
  "setState (getNamespacedApi ns api) p (Some True)
     = setState api (Updater (setState_updater (name ns) p (Some True))) None
   \<and> (wf_obj (st_state s) \<longrightarrow>
        map_of (st_state (fst (setState (getNamespacedApi ns store_api) p (Some True) s)))
          = map_of (st_state s)
            ++ map_of (getPrefixedObject (name ns)
                 (case p of Updater f \<Rightarrow> f (getUnprefixedObject (name ns) (st_state s))
                  | Partial q \<Rightarrow> q)))
   \<and> setState_updater ''a'' (Partial [(''x'', 9::int)]) (Some True) [(''a_x'', 1), (''a_y'', 2)]
       = [(''a_x'', 9)]
   \<and> st_state (fst (setState
         (getNamespacedApi \<lparr>name = ''a'', creator = (\<lambda>_. [])\<rparr> store_api)
         (Partial [(''x'', 9::int)]) (Some True)
         \<lparr>st_state = [(''a_x'', 1), (''a_y'', 2)], st_initialState = [],
           st_listeners = ([] :: (int, unit) listener list)\<rparr>))
       = [(''a_x'', 9), (''a_y'', 2)]"
proof -
  have u: "setState_updater ''a'' (Partial [(''x'', 9::int)]) (Some True) [(''a_x'', 1), (''a_y'', 2)]
       = [(''a_x'', 9)]"
    by (simp add: setState_updater_def getUnprefixedObject_def getPrefixedObject_def spread_def)
  have c: "st_state (fst (setState
         (getNamespacedApi \<lparr>name = ''a'', creator = (\<lambda>_. [])\<rparr> store_api)
         (Partial [(''x'', 9::int)]) (Some True)
         \<lparr>st_state = [(''a_x'', 1), (''a_y'', 2)], st_initialState = [],
           st_listeners = ([] :: (int, unit) listener list)\<rparr>))
       = [(''a_x'', 9), (''a_y'', 2)]"
    by (simp add: facade_setState_forward store_api_def store_setState_merge u spread_def)
  show ?thesis
    by (intro conjI impI facade_setState_forward facade_replace_merges u c)
qed

theorem facade_replace_keeps_stale_key_witness:
  "wf_obj [(''a_x'', 1::int), (''a_y'', 2)]
   \<and> map_of (st_state (fst (setState
         (getNamespacedApi \<lparr>name = ''a'', creator = (\<lambda>_. [])\<rparr> store_api)
         (Partial [(''x'', 9::int)]) (Some True)
         \<lparr>st_state = [(''a_x'', 1), (''a_y'', 2)], st_initialState = [],
           st_listeners = ([] :: (int, unit) listener list)\<rparr>))) ''a_y''
     = Some 2"
  using facade_replace_keeps_stale_key[where ns = "\<lparr>name = ''a'', creator = (\<lambda>_. [])\<rparr>"
      and p = "Partial [(''x'', 9::int)]"
      and s = "\<lparr>st_state = [(''a_x'', 1), (''a_y'', 2)], st_initialState = [],
                st_listeners = ([] :: (int, unit) listener list)\<rparr>",
      THEN conjunct2, THEN conjunct1]
  by (simp add: wf_obj_def getPrefixedObject_def map_add_def)

text \<open>
  Claim C6, as stated, fails when a key of the other namespace is also a key of the
  namespace written to: with the namespaces \<open>a\<close> and \<open>a_b\<close> and the parent state
  \<^verbatim>\<open>{a_b_x: 0}\<close>, the write \<^verbatim>\<open>setState({b_x: 1})\<close> through the facade of \<open>a\<close> changes
  the key \<open>a_b_x\<close>, which belongs to \<open>a_b\<close>.
\<close>

theorem facade_write_other_namespace_counterexample:
  "''a'' \<noteq> ''a_b''
   \<and> prefix (''a_b'' @ ''_'') ''a_b_x''
   \<and> map_of (st_state (fst (setState
          (getNamespacedApi \<lparr>name = ''a'', creator = (\<lambda>_. [])\<rparr> store_api)
          (Partial [(''b_x'', 1::int)]) None
          \<lparr>st_state = [(''a_b_x'', 0)], st_initialState = [], st_listeners = ([] :: (int, unit) listener list)\<rparr>))) ''a_b_x''
       \<noteq> map_of [(''a_b_x'', 0::int)] ''a_b_x''"
  by (simp add: facade_setState_forward store_api_def store_setState_merge spread_def
      setState_updater_def getUnprefixedObject_def getPrefixedObject_def)

text \<open>
  Claim C6, amended. A write through the facade of a namespace with \<^verbatim>\<open>replace\<close> absent
  or false prefixes the resolved patch and forwards it as a non-replacing call of the
  parent's \<^verbatim>\<open>setState\<close>. After the call every key of the parent state that does not
  start with the name of the namespace and the separator has the value it had before, and
  is absent if it was absent. So every key \<open>b_*\<close> of another namespace \<open>b\<close> is unchanged
  when neither of the two tokens \<open>a_\<close> and \<open>b_\<close> is a prefix of the other.
\<close>

theorem facade_merge_frame:
  assumes "replace \<noteq> Some True"
  shows "setState (getNamespacedApi ns api) p replace
           = setState api (Updater (\<lambda>cur. getPrefixedObject (name ns)
                (case p of Updater f \<Rightarrow> f (getUnprefixedObject (name ns) cur) | Partial q \<Rightarrow> q))) None
         \<and> (\<not> prefix (name ns @ ''_'') k \<longrightarrow>
               map_of (st_state (fst (setState (getNamespacedApi ns store_api) p replace s))) k
                 = map_of (st_state s) k)
         \<and> (\<not> prefix (name ns @ ''_'') (b @ ''_'') \<and> \<not> prefix (b @ ''_'') (name ns @ ''_'')
               \<and> prefix (b @ ''_'') k' \<longrightarrow>
               map_of (st_state (fst (setState (getNamespacedApi ns store_api) p replace s))) k'
                 = map_of (st_state s) k')"
proof -
  have fwd: "setState_updater (name ns) p replace
        = (\<lambda>cur. getPrefixedObject (name ns)
                (case p of Updater f \<Rightarrow> f (getUnprefixedObject (name ns) cur) | Partial q \<Rightarrow> q))"
    using assms by (auto simp: updater_merge)
  have frame: "map_of (st_state (fst (setState (getNamespacedApi ns store_api) p replace s))) k
                 = map_of (st_state s) k" if "\<not> prefix (name ns @ ''_'') k" for k
  proof -
    have "k \<notin> fst ` set (setState_updater (name ns) p replace (st_state s))"
      using that updater_keys_replace_False[OF assms] by blast
    then show ?thesis
      by (simp add: facade_setState_forward store_api_def store_setState_merge map_of_spread_other)
  qed
  have other: "\<not> prefix (name ns @ ''_'') k"
    if "\<not> prefix (name ns @ ''_'') (b @ ''_'')" "\<not> prefix (b @ ''_'') (name ns @ ''_'')"
       "prefix (b @ ''_'') k" for k
    using that by (meson prefix_same_cases)
  show ?thesis
    using frame other by (simp add: facade_setState_forward fwd)
qed

theorem facade_merge_frame_witness:
  "(None :: bool option) \<noteq> Some True
   \<and> \<not> prefix (''a'' @ ''_'') ''b_y''
   \<and> \<not> prefix (''a'' @ ''_'') (''b'' @ ''_'') \<and> \<not> prefix (''b'' @ ''_'') (''a'' @ ''_'')
   \<and> prefix (''b'' @ ''_'') ''b_y''
   \<and> map_of (st_state (fst (setState
          (getNamespacedApi \<lparr>name = ''a'', creator = (\<lambda>_. [])\<rparr> store_api)
          (Partial [(''x'', 1::int)]) None
          \<lparr>st_state = [(''a_x'', 0), (''b_y'', 5)], st_initialState = [], st_listeners = ([] :: (int, unit) listener list)\<rparr>))) ''b_y''
       = Some 5"
proof -
  have h: "(None :: bool option) \<noteq> Some True" by simp
  show ?thesis
    using facade_merge_frame[OF h, where ns = "\<lparr>name = ''a'', creator = (\<lambda>_. [])\<rparr>"
      and p = "Partial [(''x'', 1::int)]" and k = "''b_y''" and k' = "''b_y''" and b = "''b''"
      and s = "\<lparr>st_state = [(''a_x'', 0), (''b_y'', 5)], st_initialState = [],
                st_listeners = ([] :: (int, unit) listener list)\<rparr>",
      THEN conjunct2]
    by simp
qed


section \<open>Subscribing through the facade\<close>

lemma store_notify_after_subscribe:
  "snd (store_setState p r (store_subscribe l s))
     = snd (store_setState p r s)
       @ l (st_state (fst (store_setState p r s))) (st_state s)"
  by (simp add: store_setState_def store_subscribe_def Let_def)

lemma subscribe_callback_map_of:
  "subscribe_callback n listener new old
     = (if map_of (getUnprefixedObject n new) = map_of (getUnprefixedObject n old) then []
        else listener (getUnprefixedObject n new) (getUnprefixedObject n old))"
  by (simp add: subscribe_callback_def Let_def
      shallow_iff_map_of[OF wf_getUnprefixedObject wf_getUnprefixedObject])

text \<open>
  Claim C2. A listener registered through the facade's \<^verbatim>\<open>subscribe\<close> is registered
  with the parent wrapped in a callback. When the parent notifies with the new and the old
  state, the callback compares the two unprefixed views: if they are shallow-equal (the
  same keys with the same values, that is, equal as maps) the listener is not called and
  nothing is emitted; otherwise the listener is called once, with the new view and the old
  view in this order. On the parent store this is what happens at every \<^verbatim>\<open>setState\<close>
  after the subscription: the events are those of the listeners registered before,
  followed by those of this one call or by none.
\<close>

theorem facade_subscribe_filters:
  "subscribe (getNamespacedApi ns api) listener
     = subscribe api (subscribe_callback (name ns) listener)
   \<and> shallow (getUnprefixedObject (name ns) new) (getUnprefixedObject (name ns) old)
       = (map_of (getUnprefixedObject (name ns) new) = map_of (getUnprefixedObject (name ns) old))
   \<and> subscribe_callback (name ns) listener new old
       = (if shallow (getUnprefixedObject (name ns) new) (getUnprefixedObject (name ns) old) then []
          else listener (getUnprefixedObject (name ns) new) (getUnprefixedObject (name ns) old))
   \<and> snd (setState store_api p r (subscribe (getNamespacedApi ns store_api) listener s))
       = snd (setState store_api p r s)
         @ (if shallow (getUnprefixedObject (name ns) (st_state (fst (setState store_api p r s))))
                       (getUnprefixedObject (name ns) (st_state s))
            then []
            else listener (getUnprefixedObject (name ns) (st_state (fst (setState store_api p r s))))
                          (getUnprefixedObject (name ns) (st_state s)))"
proof -
  have 1: "subscribe (getNamespacedApi ns api) listener
     = subscribe api (subscribe_callback (name ns) listener)"
    by (rule facade_subscribe_forward)
  have 2: "shallow (getUnprefixedObject (name ns) new) (getUnprefixedObject (name ns) old)
       = (map_of (getUnprefixedObject (name ns) new) = map_of (getUnprefixedObject (name ns) old))"
    by (rule shallow_iff_map_of[OF wf_getUnprefixedObject wf_getUnprefixedObject])
  have 3: "subscribe_callback (name ns) listener new old
       = (if shallow (getUnprefixedObject (name ns) new) (getUnprefixedObject (name ns) old) then []
          else listener (getUnprefixedObject (name ns) new) (getUnprefixedObject (name ns) old))"
    by (simp add: subscribe_callback_def Let_def)
  have 4: "snd (setState store_api p r (subscribe (getNamespacedApi ns store_api) listener s))
       = snd (setState store_api p r s)
         @ subscribe_callback (name ns) listener (st_state (fst (setState store_api p r s))) (st_state s)"
    by (simp add: facade_subscribe_forward store_api_def store_notify_after_subscribe)
  show ?thesis
    unfolding 4 by (intro conjI 1 2 3) (simp add: subscribe_callback_def Let_def)
qed

theorem facade_subscribe_filters_witness:
  "snd (setState store_api (Partial [(''b_y'', 7::int)]) None
          (subscribe (getNamespacedApi \<lparr>name = ''a'', creator = (\<lambda>_. [])\<rparr> store_api)
             (\<lambda>new old. [(new, old)])
             \<lparr>st_state = [(''a_x'', 0), (''b_y'', 5)], st_initialState = [],
               st_listeners = ([] :: (int, int obj \<times> int obj) listener list)\<rparr>))
     = []
   \<and> snd (setState store_api (Partial [(''a_x'', 1::int)]) None
          (subscribe (getNamespacedApi \<lparr>name = ''a'', creator = (\<lambda>_. [])\<rparr> store_api)
             (\<lambda>new old. [(new, old)])
             \<lparr>st_state = [(''a_x'', 0), (''b_y'', 5)], st_initialState = [],
               st_listeners = ([] :: (int, int obj \<times> int obj) listener list)\<rparr>))
     = [([(''x'', 1)], [(''x'', 0)])]"
proof -
  let ?s = "\<lparr>st_state = [(''a_x'', 0::int), (''b_y'', 5)], st_initialState = [],
               st_listeners = ([] :: (int, int obj \<times> int obj) listener list)\<rparr>"
  let ?ns = "\<lparr>name = ''a'', creator = (\<lambda>_. [])\<rparr> :: ((int, int obj \<times> int obj) Store, int, int obj \<times> int obj) Namespace"
  note a = facade_subscribe_filters[where ns = ?ns and s = ?s and listener = "\<lambda>new old. [(new, old)]"
      and p = "Partial [(''b_y'', 7::int)]" and r = None, THEN conjunct2, THEN conjunct2, THEN conjunct2]
  note b = facade_subscribe_filters[where ns = ?ns and s = ?s and listener = "\<lambda>new old. [(new, old)]"
      and p = "Partial [(''a_x'', 1::int)]" and r = None, THEN conjunct2, THEN conjunct2, THEN conjunct2]
  have sa: "store_setState (Partial [(''b_y'', 7::int)]) None ?s
      = (?s\<lparr>st_state := [(''a_x'', 0), (''b_y'', 7)]\<rparr>, [])"
    by (simp add: store_setState_def spread_def)
  have sb: "store_setState (Partial [(''a_x'', 1::int)]) None ?s
      = (?s\<lparr>st_state := [(''a_x'', 1), (''b_y'', 5)]\<rparr>, [])"
    by (simp add: store_setState_def spread_def)
  show ?thesis
    using a b by (simp add: store_api_def sa sb getUnprefixedObject_def shallow_def)
qed


section \<open>The combined creator\<close>

lemma keys_spread: "fst ` set (spread a b) = fst ` set a \<union> fst ` set b"
proof (induction b arbitrary: a)
  case Nil
  then show ?case by (simp add: spread_def)
next
  case (Cons p b)
  obtain k v where p: "p = (k, v)" by (cases p)
  have "fst ` set (spread (AList.update k v a) b) = fst ` set (AList.update k v a) \<union> fst ` set b"
    by (rule Cons.IH)
  then show ?case by (simp add: p spread_def dom_update)
qed

lemma spread_Nil: "spread a [] = a"
  by (simp add: spread_def)

lemma transformCallback_facade:
  "transformCallback (set', get', api) ns
     = getPrefixedObject (name ns)
         (creator ns (setState (getNamespacedApi ns api), getState (getNamespacedApi ns api),
                      getNamespacedApi ns api))"
  by (simp add: transformCallback_def transformStateCreatorArgs_def Let_def)

lemma map_of_spreadNamespaces_fold:
  "(\<And>ns. wf_obj (cb ns)) \<Longrightarrow>
   map_of (foldl (\<lambda>acc ns. spread acc (cb ns)) acc nss)
     = foldl (\<lambda>m ns. m ++ map_of (cb ns)) (map_of acc) nss"
proof (induction nss arbitrary: acc)
  case Nil
  then show ?case by simp
next
  case (Cons ns nss)
  have "map_of (foldl (\<lambda>acc ns. spread acc (cb ns)) (spread acc (cb ns)) nss)
     = foldl (\<lambda>m ns. m ++ map_of (cb ns)) (map_of (spread acc (cb ns))) nss"
    by (rule Cons.IH[OF Cons.prems])
  then show ?case by (simp add: map_of_spread_wf[OF Cons.prems])
qed

lemma wf_transformCallback: "wf_obj (transformCallback args ns)"
  by (simp add: transformCallback_def Let_def wf_getPrefixedObject)

lemma map_of_spreadTransformedNamespaces:
  "map_of (spreadTransformedNamespaces nss args)
     = foldl (\<lambda>m ns. m ++ map_of (transformCallback args ns)) Map.empty nss"
  using map_of_spreadNamespaces_fold[of "transformCallback args" "[]" nss]
  by (simp add: spreadTransformedNamespaces_def spreadNamespaces_def wf_transformCallback)

text \<open>
  Claim C3. For every list of descriptors and every optional root creator, the state the
  combined creator returns is, as a map, the merge from left to right, in the order of the
  list, of the prefixed outputs of the namespaces' creators, each called with the
  \<^verbatim>\<open>setState\<close> and \<^verbatim>\<open>getState\<close> of its facade and the facade itself, with the output of
  the root creator merged on top. \<open>m ++ m'\<close> takes the value of \<open>m'\<close> where both have
  the key: a later descriptor wins over an earlier one, also when two descriptors have the
  same name, and a root key wins over a namespace key of the same name.
\<close>

theorem namespaced_merge_order:
  assumes "\<forall>c. rootCreator = Some c \<longrightarrow> wf_obj (c (set', get', api))"
  shows "map_of (namespaced namespaces rootCreator (set', get', api))
           = foldl (\<lambda>m ns. m ++ map_of (getPrefixedObject (name ns)
                      (creator ns (setState (getNamespacedApi ns api),
                                   getState (getNamespacedApi ns api),
                                   getNamespacedApi ns api))))
               Map.empty namespaces
             ++ (case rootCreator of None \<Rightarrow> Map.empty | Some c \<Rightarrow> map_of (c (set', get', api)))"
proof -
  have ns: "map_of (spreadTransformedNamespaces namespaces (set', get', api))
      = foldl (\<lambda>m ns. m ++ map_of (getPrefixedObject (name ns)
                      (creator ns (setState (getNamespacedApi ns api),
                                   getState (getNamespacedApi ns api),
                                   getNamespacedApi ns api))))
               Map.empty namespaces"
    by (simp add: map_of_spreadTransformedNamespaces transformCallback_facade)
  show ?thesis
  proof (cases rootCreator)
    case None
    then show ?thesis by (simp add: namespaced_def withFactories_def spread_Nil ns)
  next
    case (Some c)
    then have "wf_obj (c (set', get', api))" using assms by simp
    then show ?thesis using Some
      by (simp add: namespaced_def withFactories_def map_of_spread_wf ns)
  qed
qed

theorem namespaced_merge_order_witness:
  "wf_obj [(''a_y'', 9::int), (''foo'', 0)]
   \<and> map_of (namespaced
        [\<lparr>name = ''a'', creator = (\<lambda>_. [(''x'', 1), (''z'', 4)])\<rparr>,
         \<lparr>name = ''a'', creator = (\<lambda>_. [(''x'', 2), (''y'', 3)])\<rparr>]
        (Some (\<lambda>_. [(''a_y'', 9), (''foo'', 0)]))
        (setState store_api, getState store_api,
         (store_api :: ((int, unit) Store, int, unit) StoreApi)))
     = [''a_z'' \<mapsto> 4, ''a_x'' \<mapsto> 2, ''a_y'' \<mapsto> 9, ''foo'' \<mapsto> 0]"
proof -
  have h: "\<forall>c. Some (\<lambda>_ :: ((int, unit) Store, int, unit) creator_args. [(''a_y'', 9::int), (''foo'', 0)]) = Some c
             \<longrightarrow> wf_obj (c (setState store_api, getState store_api, store_api))"
    by (simp add: wf_obj_def)
  show ?thesis
    using namespaced_merge_order[OF h, where namespaces =
        "[\<lparr>name = ''a'', creator = (\<lambda>_. [(''x'', 1), (''z'', 4)])\<rparr>,
          \<lparr>name = ''a'', creator = (\<lambda>_. [(''x'', 2), (''y'', 3)])\<rparr>]"]
    by (simp add: wf_obj_def getPrefixedObject_def fun_eq_iff map_add_def)
qed

lemma keys_spreadNamespaces_fold:
  "fst ` set (foldl (\<lambda>acc ns. spread acc (cb ns)) acc nss)
     = fst ` set acc \<union> (\<Union>ns \<in> set nss. fst ` set (cb ns))"
  by (induction nss arbitrary: acc) (auto simp: keys_spread)

text \<open>
  For creators that return, the combined creator without a root creator is the merge
  from left to right of the prefixed outputs, and has their prefixed keys only.
\<close>

lemma namespaced_None_merge:
  "namespaced namespaces None (set', get', api)
     = foldl (\<lambda>acc ns. spread acc (getPrefixedObject (name ns)
                (creator ns (setState (getNamespacedApi ns api),
                             getState (getNamespacedApi ns api),
                             getNamespacedApi ns api))))
         [] namespaces
   \<and> namespaced namespaces None (set', get', api)
       = spreadTransformedNamespaces namespaces (set', get', api)
   \<and> fst ` set (namespaced namespaces None (set', get', api))
       = (\<Union>ns \<in> set namespaces. (\<lambda>k. name ns @ ''_'' @ k) `
            fst ` set (creator ns (setState (getNamespacedApi ns api),
                                   getState (getNamespacedApi ns api),
                                   getNamespacedApi ns api)))"
proof -
  have 2: "namespaced namespaces None (set', get', api)
       = spreadTransformedNamespaces namespaces (set', get', api)"
    by (simp add: namespaced_def withFactories_def spread_Nil)
  have 1: "spreadTransformedNamespaces namespaces (set', get', api)
     = foldl (\<lambda>acc ns. spread acc (getPrefixedObject (name ns)
                (creator ns (setState (getNamespacedApi ns api),
                             getState (getNamespacedApi ns api),
                             getNamespacedApi ns api))))
         [] namespaces"
    by (simp add: spreadTransformedNamespaces_def spreadNamespaces_def transformCallback_facade)
  have 3: "fst ` set (spreadTransformedNamespaces namespaces (set', get', api))
       = (\<Union>ns \<in> set namespaces. (\<lambda>k. name ns @ ''_'' @ k) `
            fst ` set (creator ns (setState (getNamespacedApi ns api),
                                   getState (getNamespacedApi ns api),
                                   getNamespacedApi ns api)))"
    unfolding 1 by (simp add: keys_spreadNamespaces_fold keys_getPrefixedObject)
  show ?thesis using 1 2 3 by simp
qed


section \<open>The combined creator at creation time\<close>







section \<open>The standalone transform and the accessors\<close>

text \<open>
  Claim C7, as stated, fails: \<^verbatim>\<open>fromNamespace\<close> has two parameters, the namespace first
  and the state second. In the call \<^verbatim>\<open>fromNamespace(state, subNs, userNs)\<close> the state
  \<^verbatim>\<open>{name: "Alice", age: 25}\<close> is bound to the namespace, the descriptor \<open>subNs\<close> to the
  state, and the third argument to nothing. The result has the keys of the descriptor
  prefixed with \<open>Alice\<close>, not \<^verbatim>\<open>{user_admin_name: "Alice", user_admin_age: 25}\<close>.
\<close>

theorem fromNamespace_state_first_counterexample:
  "fromNamespace [(''name'', JStr ''Alice''), (''age'', JNum 25)]
                 [(''name'', JStr ''admin''), (''creator'', JFun ''creator'')]
     = Some [(''Alice_name'', JStr ''admin''), (''Alice_creator'', JFun ''creator'')]
   \<and> fromNamespace [(''name'', JStr ''Alice''), (''age'', JNum 25)]
                   [(''name'', JStr ''admin''), (''creator'', JFun ''creator'')]
     \<noteq> Some [(''user_admin_name'', JStr ''Alice''), (''user_admin_age'', JNum 25)]"
  by (simp add: fromNamespace_def getPrefixedObject_def)

text \<open>
  Claim C7, amended. \<^verbatim>\<open>fromNamespace(descriptor, state)\<close> is a pure transform of one
  descriptor, given first, and a state, given second: it returns the state with every key
  prefixed with the name of the descriptor. Nested prefixes come from applying it once
  for each descriptor, the innermost first: the name applied first is the innermost
  segment and the name applied last the outermost. With \<open>admin\<close> and then \<open>user\<close> on
  \<^verbatim>\<open>{name: "Alice", age: 25}\<close> the result is
  \<^verbatim>\<open>{user_admin_name: "Alice", user_admin_age: 25}\<close>.
\<close>

theorem fromNamespace_descriptor_first:
  assumes "map_of inner ''name'' = Some (JStr n1)"
    and "map_of outer ''name'' = Some (JStr n2)"
    and "wf_obj st"
  shows "fromNamespace inner st = Some (map (\<lambda>(k, v). (n1 @ ''_'' @ k, v)) st)
       \<and> Option.bind (fromNamespace inner st) (fromNamespace outer)
           = Some (map (\<lambda>(k, v). (n2 @ ''_'' @ n1 @ ''_'' @ k, v)) st)"
proof -
  have 1: "fromNamespace inner st = Some (map (\<lambda>(k, v). (n1 @ ''_'' @ k, v)) st)"
    using assms(1) by (simp add: fromNamespace_def getPrefixedObject_map[OF assms(3)])
  have p: "getPrefixedObject n2 (map (\<lambda>(k, v). (n1 @ ''_'' @ k, v)) st)
      = map (\<lambda>(k, v). (n2 @ ''_'' @ k, v)) (map (\<lambda>(k, v). (n1 @ ''_'' @ k, v)) st)"
    by (rule getPrefixedObject_map[OF wf_map_prefixed[OF assms(3)]])
  have o: "fromNamespace outer x = Some (getPrefixedObject n2 x)" for x
    using assms(2) by (simp add: fromNamespace_def)
  have "fromNamespace outer (map (\<lambda>(k, v). (n1 @ ''_'' @ k, v)) st)
      = Some (map (\<lambda>(k, v). (n2 @ ''_'' @ k, v)) (map (\<lambda>(k, v). (n1 @ ''_'' @ k, v)) st))"
    by (simp only: o p)
  then show ?thesis using 1 by (simp add: case_prod_unfold comp_def)
qed

theorem fromNamespace_descriptor_first_witness:
  "map_of [(''name'', JStr ''admin''), (''creator'', JFun ''creator'')] ''name'' = Some (JStr ''admin'')
   \<and> map_of [(''name'', JStr ''user''), (''creator'', JFun ''creator'')] ''name'' = Some (JStr ''user'')
   \<and> wf_obj [(''name'', JStr ''Alice''), (''age'', JNum 25)]
   \<and> Option.bind
        (fromNamespace [(''name'', JStr ''admin''), (''creator'', JFun ''creator'')]
                       [(''name'', JStr ''Alice''), (''age'', JNum 25)])
        (fromNamespace [(''name'', JStr ''user''), (''creator'', JFun ''creator'')])
     = Some [(''user_admin_name'', JStr ''Alice''), (''user_admin_age'', JNum 25)]"
proof -
  have a: "map_of [(''name'', JStr ''admin''), (''creator'', JFun ''creator'')] ''name'' = Some (JStr ''admin'')"
    by simp
  have b: "map_of [(''name'', JStr ''user''), (''creator'', JFun ''creator'')] ''name'' = Some (JStr ''user'')"
    by simp
  have c: "wf_obj [(''name'', JStr ''Alice''), (''age'', JNum 25)]"
    by (simp add: wf_obj_def)
  show ?thesis
    using a b c fromNamespace_descriptor_first[OF a b c, THEN conjunct2] by simp
qed

text \<open>
  Claim C8, as stated, fails: for the two descriptors \<open>user\<close> and \<open>admin\<close> the method
  returns an array, and reading the array with the key \<open>user\<close> or \<open>admin\<close> gives no
  accessor.
\<close>

theorem getNamespaceHook_by_name_counterexample:
  "length [\<lparr>name = ''user'', creator = (\<lambda>_. [(''name'', 1), (''age'', 25)])\<rparr>,
           \<lparr>name = ''admin'', creator = (\<lambda>_. [(''level'', 1)])\<rparr> ::
             ((int, unit) Store, int, unit) Namespace] = 2
   \<and> hooks_by_name
        (withFactories_getNamespaceHook store_api
           [\<lparr>name = ''user'', creator = (\<lambda>_. [(''name'', 1), (''age'', 25)])\<rparr>,
            \<lparr>name = ''admin'', creator = (\<lambda>_. [(''level'', 1)])\<rparr>]
         :: ((int, unit) Store, int, unit, int) UseBoundNamespace hooks) ''user'' = None
   \<and> hooks_by_name
        (withFactories_getNamespaceHook store_api
           [\<lparr>name = ''user'', creator = (\<lambda>_. [(''name'', 1), (''age'', 25)])\<rparr>,
            \<lparr>name = ''admin'', creator = (\<lambda>_. [(''level'', 1)])\<rparr>]
         :: ((int, unit) Store, int, unit, int) UseBoundNamespace hooks) ''admin'' = None"
  by (simp add: hooks_by_name_def withFactories_getNamespaceHook_def array_element_def
      array_index_def digit_of_def)

text \<open>
  Claim C8, amended. Given a number of descriptors other than one, the method
  \<^verbatim>\<open>getNamespaceHook\<close> returns an array with one accessor for each descriptor, in the
  order of the descriptors: the element at index \<open>i\<close> is the accessor of the \<open>i\<close>-th
  descriptor, and there is no element beyond the last descriptor. The array is addressed by
  position only: a key that is not an index, such as a namespace name, gives no accessor.
\<close>

theorem getNamespaceHook_array:
  assumes "length namespaces \<noteq> 1"
  shows "withFactories_getNamespaceHook api namespaces
           = HookArray (map (getNamespaceHook api) namespaces)
       \<and> (i < length namespaces \<longrightarrow>
            hooks_by_index (withFactories_getNamespaceHook api namespaces) i
              = Some (getNamespaceHook api (namespaces ! i)))
       \<and> (length namespaces \<le> i \<longrightarrow>
            hooks_by_index (withFactories_getNamespaceHook api namespaces) i = None)
       \<and> (array_index key = None \<longrightarrow>
            hooks_by_name (withFactories_getNamespaceHook api namespaces) key = None)"
  using assms
  by (simp add: withFactories_getNamespaceHook_def hooks_by_index_def hooks_by_name_def
      array_element_def)

theorem getNamespaceHook_array_witness:
  "length [\<lparr>name = ''user'', creator = (\<lambda>_. [(''name'', 1), (''age'', 25)])\<rparr>,
           \<lparr>name = ''admin'', creator = (\<lambda>_. [(''level'', 1)])\<rparr> ::
             ((int, unit) Store, int, unit) Namespace] \<noteq> 1
   \<and> (1::nat) < 2
   \<and> array_index ''admin'' = None
   \<and> hooks_by_index
        (withFactories_getNamespaceHook store_api
           [\<lparr>name = ''user'', creator = (\<lambda>_. [(''name'', 1), (''age'', 25)])\<rparr>,
            \<lparr>name = ''admin'', creator = (\<lambda>_. [(''level'', 1)])\<rparr>]
         :: ((int, unit) Store, int, unit, int) UseBoundNamespace hooks) 1
     = Some (getNamespaceHook store_api \<lparr>name = ''admin'', creator = (\<lambda>_. [(''level'', 1)])\<rparr>)"
proof -
  let ?nss = "[\<lparr>name = ''user'', creator = (\<lambda>_. [(''name'', 1), (''age'', 25)])\<rparr>,
           \<lparr>name = ''admin'', creator = (\<lambda>_. [(''level'', 1)])\<rparr> ::
             ((int, unit) Store, int, unit) Namespace]"
  have h: "length ?nss \<noteq> 1" by simp
  have k: "array_index ''admin'' = None" by (simp add: array_index_def digit_of_def)
  show ?thesis
    using k getNamespaceHook_array[OF h, where api = store_api and i = 1 and key = "''admin''",
        THEN conjunct2, THEN conjunct1]
    by simp
qed


end
